theory Spec2Isabelle
  imports Main "HOL-Library.Word"
begin

unbundle bit_operations_syntax

section \<open>Package bip39: mnemonic sentences for binary entropy\<close>

text \<open>
  A shallow embedding of \<^verbatim>\<open>pkg/bip39/bip39.go\<close>. Byte slices are lists of 8-bit
  words, Go strings are HOL strings (byte sequences), a \<^verbatim>\<open>Mnemonic\<close> is a list of
  words. Every \<^verbatim>\<open>big.Int\<close> of the package is built from bytes, from a checked word
  index, by shifts, by \<^verbatim>\<open>And\<close>/\<^verbatim>\<open>Or\<close>, or as \<^verbatim>\<open>(1 << n) - 1\<close>, so it is never
  negative and is modelled as a natural number of unbounded size.
\<close>

type_synonym byte = "8 word"
type_synonym Mnemonic = "string list"

subsection \<open>Errors and panics\<close>

datatype error = ErrInvalidEntropySize | ErrInvalidMnemonic | ErrInvalidChecksum

datatype panic = InvalidWordIndex | InvalidNumberOfBits

text \<open>A call ends with a returned error value, with a panic, or with a result.\<close>

datatype failure = Error error | Panic panic

subsection \<open>Constants\<close>

definition SeedSize :: nat where
  "SeedSize = 64"

text \<open>\<^verbatim>\<open>sha256.Size * 8\<close>, the constant \<^verbatim>\<open>bitsHash\<close> of \<^verbatim>\<open>computeChecksum\<close>.\<close>

definition bitsHash :: nat where
  "bitsHash = 32 * 8"

text \<open>
  Modelled from the spec: the constants \<^verbatim>\<open>wordlist.IndexBits\<close>, \<^verbatim>\<open>wordlist.Count\<close>,
  \<^verbatim>\<open>wordIndexMask\<close>, \<^verbatim>\<open>bigOne\<close> and \<^verbatim>\<open>entropyMultiple\<close> are declared outside
  \<^verbatim>\<open>bip39.go\<close>. The spec fixes 11-bit word indices, 2048 words per list and
  \<open>checksumBits = entropyBits / 32\<close>; the mask selects the least significant 11 bits.
\<close>

definition IndexBits :: nat where
  "IndexBits = 11"

definition Count :: int where
  "Count = 2048"

definition wordIndexMask :: nat where
  "wordIndexMask = 2047"

definition bigOne :: nat where
  "bigOne = 1"

definition entropyMultiple :: nat where
  "entropyMultiple = 32"

subsection \<open>The standard library's big integers and byte slices\<close>

text \<open>\<^verbatim>\<open>big.Int.SetBytes\<close>: the bytes read as a big-endian unsigned integer.\<close>

definition SetBytes :: "byte list \<Rightarrow> nat" where
  "SetBytes bs = foldl (\<lambda>acc b. acc * 256 + unat b) 0 bs"

text \<open>
  \<^verbatim>\<open>big.Int.Bytes\<close>: the big-endian bytes of the absolute value with no leading zero
  byte; zero gives the empty slice.
\<close>

fun Bytes :: "nat \<Rightarrow> byte list" where
  "Bytes x = (if x = 0 then [] else Bytes (x div 256) @ [of_nat (x mod 256)])"

declare Bytes.simps [simp del]

text \<open>\<^verbatim>\<open>[]byte(s)\<close> for a Go string: its bytes, unchanged.\<close>

definition stringBytes :: "string \<Rightarrow> byte list" where
  "stringBytes s = map (\<lambda>c. of_nat (of_char c)) s"

subsection \<open>The environment: active word list and library functions\<close>

text \<open>
  The package variable \<^verbatim>\<open>wordList\<close> is read, never written, by the functions below;
  it is passed explicitly. The three library functions are parameters:
  \<^item> \<^verbatim>\<open>sha256.Sum256\<close> returns a \<^verbatim>\<open>[32]byte\<close>, held here as the 256-bit value its
    bytes spell big-endian, so its size is part of its type as in Go;
  \<^item> \<^verbatim>\<open>norm.NFKD.String\<close>;
  \<^item> \<^verbatim>\<open>pbkdf2.Key(password, salt, iter, keyLen, sha512.New)\<close>.
\<close>

record env =
  wordList :: "string list"
  Sum256 :: "byte list \<Rightarrow> 256 word"
  NFKD :: "string \<Rightarrow> string"
  pbkdf2_Key :: "byte list \<Rightarrow> byte list \<Rightarrow> nat \<Rightarrow> nat \<Rightarrow> byte list"

text \<open>\<^verbatim>\<open>hash[:]\<close>: the 32 bytes of a digest, most significant first.\<close>

fun bigEndian :: "nat \<Rightarrow> nat \<Rightarrow> byte list" where
  "bigEndian 0 x = []"
| "bigEndian (Suc n) x = bigEndian n (x div 256) @ [of_nat (x mod 256)]"

definition hashBytes :: "256 word \<Rightarrow> byte list" where
  "hashBytes h = bigEndian 32 (unat h)"

text \<open>
  Modelled from the spec: package \<^verbatim>\<open>wordlist\<close> is defined outside \<^verbatim>\<open>bip39.go\<close>. A list
  holds exactly 2048 unique words; \<^verbatim>\<open>Word\<close> returns the word at an index and
  \<^verbatim>\<open>Index\<close> the index of a word, or a negative number when the word is not found.
\<close>

definition wordlist_ok :: "string list \<Rightarrow> bool" where
  "wordlist_ok wl = (length wl = 2048 \<and> distinct wl)"

definition List_Word :: "string list \<Rightarrow> nat \<Rightarrow> string" where
  "List_Word wl i = wl ! i"

fun List_Index :: "string list \<Rightarrow> string \<Rightarrow> int" where
  "List_Index [] w = - 1"
| "List_Index (x # xs) w =
     (if x = w then 0
      else (let r = List_Index xs w in if r < 0 then r else r + 1))"

text \<open>
  Modelled from the spec: \<^verbatim>\<open>Mnemonic.String\<close> is defined outside \<^verbatim>\<open>bip39.go\<close>; the
  sentence is the words joined by single spaces.
\<close>

fun Mnemonic_String :: "Mnemonic \<Rightarrow> string" where
  "Mnemonic_String [] = []"
| "Mnemonic_String [w] = w"
| "Mnemonic_String (w # ws) = w @ '' '' @ Mnemonic_String ws"

subsection \<open>Helpers of the package that \<^verbatim>\<open>bip39.go\<close> only calls\<close>

text \<open>
  Modelled from the spec: \<^verbatim>\<open>validateEntropy\<close> is defined outside \<^verbatim>\<open>bip39.go\<close>. It
  fails with \<^verbatim>\<open>ErrInvalidEntropySize\<close> unless \<open>16 \<le> len \<le> 64\<close> and
  \<open>len % 4 = 0\<close>.
\<close>

definition validateEntropy :: "byte list \<Rightarrow> error option" where
  "validateEntropy entropy =
     (if 16 \<le> length entropy \<and> length entropy \<le> 64 \<and> length entropy mod 4 = 0
      then None else Some ErrInvalidEntropySize)"

text \<open>
  Modelled from the spec: \<^verbatim>\<open>validateMnemonic\<close> is defined outside \<^verbatim>\<open>bip39.go\<close>. It
  fails with \<^verbatim>\<open>ErrInvalidMnemonic\<close> if the word count is not one of 12, 15, 18, 21, 24
  or if any word is absent from the active list.
\<close>

definition validateMnemonic :: "string list \<Rightarrow> Mnemonic \<Rightarrow> error option" where
  "validateMnemonic wl mnemonic =
     (if length mnemonic \<notin> set [12, 15, 18, 21, 24] then Some ErrInvalidMnemonic
      else if list_ex (\<lambda>w. w \<notin> set wl) mnemonic then Some ErrInvalidMnemonic
      else None)"

text \<open>
  Modelled from the spec: \<^verbatim>\<open>entropyBitsToWordCount\<close> and \<^verbatim>\<open>wordCountToEntropyBits\<close>
  are defined outside \<^verbatim>\<open>bip39.go\<close>. The spec fixes \<open>entropyBits = 32 \<times> wordCount / 3\<close>.
\<close>

definition entropyBitsToWordCount :: "nat \<Rightarrow> nat" where
  "entropyBitsToWordCount bitsEntropy = 3 * bitsEntropy div 32"

definition wordCountToEntropyBits :: "nat \<Rightarrow> nat" where
  "wordCountToEntropyBits wordCount = 32 * wordCount div 3"

text \<open>
  Modelled from the spec: \<^verbatim>\<open>padBytes\<close> is defined outside \<^verbatim>\<open>bip39.go\<close>. It restores the
  leading zero bytes that \<^verbatim>\<open>big.Int.Bytes\<close> drops, up to the given length.
\<close>

definition padBytes :: "byte list \<Rightarrow> nat \<Rightarrow> byte list" where
  "padBytes bs n = replicate (n - length bs) 0 @ bs"

subsection \<open>computeChecksum\<close>

definition computeChecksum :: "env \<Rightarrow> byte list \<Rightarrow> nat \<Rightarrow> failure + nat" where
  "computeChecksum e bytes numBits =
     (if numBits > bitsHash then Inl (Panic InvalidNumberOfBits)
      else
        let hash = Sum256 e bytes;
            checksum = SetBytes (hashBytes hash)
        in Inr (drop_bit (bitsHash - numBits) checksum))"

subsection \<open>EntropyToMnemonic\<close>

text \<open>
  The loop \<^verbatim>\<open>for i := len(words) - 1; i >= 0; i--\<close>: the first argument counts the
  iterations left, so the slot written is \<open>i\<close> when \<open>Suc i\<close> remain.
\<close>

fun fillWords :: "string list \<Rightarrow> nat \<Rightarrow> Mnemonic \<Rightarrow> nat \<Rightarrow> Mnemonic" where
  "fillWords wl 0 words bigEntropy = words"
| "fillWords wl (Suc i) words bigEntropy =
     (let wordIndex = bigEntropy AND wordIndexMask;
          words' = words[i := List_Word wl wordIndex];
          bigEntropy' = drop_bit IndexBits bigEntropy
      in fillWords wl i words' bigEntropy')"

definition EntropyToMnemonic :: "env \<Rightarrow> byte list \<Rightarrow> failure + Mnemonic" where
  "EntropyToMnemonic e entropy =
     (case validateEntropy entropy of
        Some err \<Rightarrow> Inl (Error err)
      | None \<Rightarrow>
          let bitsEntropy = length entropy * 8;
              bitsChecksum = bitsEntropy div 32
          in (case computeChecksum e entropy bitsChecksum of
                Inl f \<Rightarrow> Inl f
              | Inr checksum \<Rightarrow>
                  let bigEntropy = SetBytes entropy;
                      bigEntropy = push_bit bitsChecksum bigEntropy;
                      bigEntropy = bigEntropy OR checksum;
                      words = replicate (entropyBitsToWordCount bitsEntropy) []
                  in Inr (fillWords (wordList e) (length words) words bigEntropy)))"

subsection \<open>MnemonicToEntropy\<close>

fun decodeWords :: "string list \<Rightarrow> Mnemonic \<Rightarrow> nat \<Rightarrow> failure + nat" where
  "decodeWords wl [] decoder = Inr decoder"
| "decodeWords wl (word # rest) decoder =
     (let wordIndex = List_Index wl word in
      if wordIndex < 0 \<or> wordIndex \<ge> Count then Inl (Panic InvalidWordIndex)
      else decodeWords wl rest (push_bit IndexBits decoder OR nat wordIndex))"

definition MnemonicToEntropy :: "env \<Rightarrow> Mnemonic \<Rightarrow> failure + byte list" where
  "MnemonicToEntropy e mnemonic =
     (case validateMnemonic (wordList e) mnemonic of
        Some err \<Rightarrow> Inl (Error err)
      | None \<Rightarrow>
          let bitsEntropy = wordCountToEntropyBits (length mnemonic);
              bitsChecksum = bitsEntropy div entropyMultiple
          in (case decodeWords (wordList e) mnemonic 0 of
                Inl f \<Rightarrow> Inl f
              | Inr decoder \<Rightarrow>
                  let checksumMask = push_bit bitsChecksum bigOne - bigOne;
                      checksum = decoder AND checksumMask;
                      entropy = Bytes (drop_bit bitsChecksum decoder);
                      entropy = padBytes entropy (bitsEntropy div 8)
                  in (case computeChecksum e entropy bitsChecksum of
                        Inl f \<Rightarrow> Inl f
                      | Inr computed \<Rightarrow>
                          if checksum \<noteq> computed then Inl (Error ErrInvalidChecksum)
                          else Inr entropy)))"

subsection \<open>MnemonicToSeed\<close>

definition MnemonicToSeed :: "env \<Rightarrow> Mnemonic \<Rightarrow> string \<Rightarrow> failure + byte list" where
  "MnemonicToSeed e mnemonic passphrase =
     (case MnemonicToEntropy e mnemonic of
        Inl err \<Rightarrow> Inl err
      | Inr _ \<Rightarrow>
          let passphrase = NFKD e passphrase;
              key = pbkdf2_Key e (stringBytes (Mnemonic_String mnemonic))
                      (stringBytes (''mnemonic'' @ passphrase)) 2048 SeedSize
          in Inr key)"

section \<open>Definitions for stating and proving the properties\<close>

subsection \<open>Numbers as sequences of 11-bit word indices\<close>

text \<open>
  \<open>digits n x\<close> are the \<open>n\<close> low base-2048 digits of \<open>x\<close>, most significant first;
  \<open>fromDigits\<close> reads such digits back, continuing from an accumulator.
\<close>

fun digits :: "nat \<Rightarrow> nat \<Rightarrow> nat list" where
  "digits 0 x = []"
| "digits (Suc n) x = digits n (x div 2048) @ [x mod 2048]"

definition fromDigits :: "nat \<Rightarrow> nat list \<Rightarrow> nat" where
  "fromDigits acc ds = foldl (\<lambda>a d. a * 2048 + d) acc ds"

text \<open>The leading \<open>n\<close> bits of a digest, as a number.\<close>

definition leadingBits :: "256 word \<Rightarrow> nat \<Rightarrow> nat" where
  "leadingBits h n = unat h div 2 ^ (256 - n)"

text \<open>The entropy followed by its checksum bits, as one number.\<close>

definition encoded :: "env \<Rightarrow> byte list \<Rightarrow> nat" where
  "encoded e entropy =
     SetBytes entropy * 2 ^ (length entropy * 8 div 32)
       + leadingBits (Sum256 e entropy) (length entropy * 8 div 32)"

text \<open>The 11-bit indices of a mnemonic's words, concatenated in sentence order.\<close>

definition mnemonicValue :: "string list \<Rightarrow> Mnemonic \<Rightarrow> nat" where
  "mnemonicValue wl m = fromDigits 0 (map (\<lambda>w. nat (List_Index wl w)) m)"

subsection \<open>The spec's description of the encoding, on bit sequences\<close>

text \<open>
  Bit sequences are lists of booleans, most significant bit first. The spec's algorithm:
  \<open>checksumBits = bitlen(entropy) / 32\<close>; the entropy bits followed by the leading
  \<open>checksumBits\<close> bits of the digest form one buffer; the buffer is split into
  consecutive 11-bit groups, most significant group first; each group is mapped through
  the word list, in the order of the groups.
\<close>

definition bitsToNat :: "bool list \<Rightarrow> nat" where
  "bitsToNat bits = foldl (\<lambda>a b. 2 * a + of_bool b) 0 bits"

definition bitsOf :: "nat \<Rightarrow> nat \<Rightarrow> bool list" where
  "bitsOf n x = map (bit x) (rev [0..<n])"

definition wordBits :: "'a::len word \<Rightarrow> bool list" where
  "wordBits w = map (bit w) (rev [0..<LENGTH('a)])"

fun groups :: "nat \<Rightarrow> bool list \<Rightarrow> bool list list" where
  "groups 0 bits = []"
| "groups (Suc k) bits = take 11 bits # groups k (drop 11 bits)"

definition spec_EntropyToMnemonic :: "env \<Rightarrow> byte list \<Rightarrow> Mnemonic" where
  "spec_EntropyToMnemonic e entropy =
     (let checksumBits = (8 * length entropy) div 32;
          buffer = concat (map wordBits entropy) @ take checksumBits (wordBits (Sum256 e entropy))
      in map (\<lambda>g. List_Word (wordList e) (bitsToNat g)) (groups (length buffer div 11) buffer))"

subsection \<open>A concrete environment\<close>

text \<open>
  An environment to instantiate the theorems at: the word at index \<open>i\<close> is \<open>i + 1\<close>
  letters \<open>a\<close>, which makes 2048 distinct words. The three library functions are
  stand-ins with the right result sizes, not the real SHA-256, NFKD and PBKDF2; the
  theorems hold for every choice of them.
\<close>

definition sample_wordList :: "string list" where
  "sample_wordList = map (\<lambda>i. replicate (Suc i) CHR ''a'') [0..<2048]"

definition sample_env :: env where
  "sample_env = \<lparr> wordList = sample_wordList,
                  Sum256 = (\<lambda>bytes. of_nat (SetBytes bytes)),
                  NFKD = (\<lambda>s. s),
                  pbkdf2_Key = (\<lambda>password salt iter keyLen. replicate keyLen 0) \<rparr>"

section \<open>Lemmas\<close>

subsection \<open>Big-endian bytes and big integers\<close>

text \<open>
  \<^verbatim>\<open>SetBytes\<close> and \<^verbatim>\<open>Bytes\<close> are inverse up to leading zero bytes, which
  \<^verbatim>\<open>padBytes\<close> restores.
\<close>

lemma SetBytes_snoc: "SetBytes (bs @ [b]) = SetBytes bs * 256 + unat b"
  by (simp add: SetBytes_def)

lemma SetBytes_Nil: "SetBytes [] = 0"
  by (simp add: SetBytes_def)

lemma SetBytes_lt: "SetBytes bs < 256 ^ length bs"
proof (induction bs rule: rev_induct)
  case Nil
  then show ?case by (simp add: SetBytes_Nil)
next
  case (snoc b bs)
  have "unat b < 256" using unsigned_less [of b] by simp
  with snoc show ?case by (simp add: SetBytes_snoc)
qed

lemma byte_of_nat_mod: "unat (of_nat (x mod 256) :: byte) = x mod 256"
  by (simp add: unat_of_nat)

lemma SetBytes_bigEndian: "SetBytes (bigEndian n x) = x mod 256 ^ n"
proof (induction n arbitrary: x)
  case 0
  then show ?case by (simp add: SetBytes_Nil)
next
  case (Suc n)
  have "x div 256 mod 256 ^ n * 256 + x mod 256 = x mod (256 * 256 ^ n)"
    by (simp add: mod_mult2_eq add.commute mult.commute)
  then show ?case by (simp add: SetBytes_snoc Suc byte_of_nat_mod)
qed

lemma SetBytes_hashBytes: "SetBytes (hashBytes h) = unat h"
proof -
  have "unat h < 2 ^ 256" using unsigned_less [of h] by simp
  then have "unat h < 256 ^ 32" by simp
  then show ?thesis by (simp add: hashBytes_def SetBytes_bigEndian)
qed

lemma bigEndian_SetBytes: "bigEndian (length bs) (SetBytes bs) = bs"
proof (induction bs rule: rev_induct)
  case Nil
  then show ?case by simp
next
  case (snoc b bs)
  have "unat b < 256" using unsigned_less [of b] by simp
  then show ?case using snoc by (simp add: SetBytes_snoc)
qed

lemma bigEndian_zero: "bigEndian n 0 = replicate n 0"
  by (induction n) (simp_all add: replicate_append_same)

lemma length_Bytes_le: "x < 256 ^ n \<Longrightarrow> length (Bytes x) \<le> n"
proof (induction n arbitrary: x)
  case 0
  then show ?case by (simp add: Bytes.simps)
next
  case (Suc n)
  show ?case
  proof (cases "x = 0")
    case True
    then show ?thesis by (simp add: Bytes.simps)
  next
    case False
    from Suc.prems have "x div 256 < 256 ^ n"
      by (simp add: less_mult_imp_div_less mult.commute)
    from Suc.IH [OF this] False show ?thesis
      by (subst Bytes.simps) simp
  qed
qed

lemma padBytes_Bytes: "x < 256 ^ n \<Longrightarrow> padBytes (Bytes x) n = bigEndian n x"
proof (induction n arbitrary: x)
  case 0
  then show ?case by (simp add: Bytes.simps padBytes_def)
next
  case (Suc n)
  show ?case
  proof (cases "x = 0")
    case True
    then show ?thesis
      by (simp add: Bytes.simps padBytes_def bigEndian_zero replicate_append_same)
  next
    case False
    from Suc.prems have lt: "x div 256 < 256 ^ n"
      by (simp add: less_mult_imp_div_less mult.commute)
    have B: "Bytes x = Bytes (x div 256) @ [of_nat (x mod 256)]"
      using False by (subst Bytes.simps) simp
    have "padBytes (Bytes x) (Suc n) = padBytes (Bytes (x div 256)) n @ [of_nat (x mod 256)]"
      by (simp add: B padBytes_def)
    with Suc.IH [OF lt] show ?thesis by simp
  qed
qed

lemma padBytes_Bytes_SetBytes: "padBytes (Bytes (SetBytes bs)) (length bs) = bs"
  by (simp add: padBytes_Bytes SetBytes_lt bigEndian_SetBytes)

lemma length_padBytes: "length bs \<le> n \<Longrightarrow> length (padBytes bs n) = n"
  by (simp add: padBytes_def)

subsection \<open>Shifts and masks as base-2048 arithmetic\<close>

lemma length_digits: "length (digits n x) = n"
  by (induction n arbitrary: x) simp_all

lemma digits_lt: "d \<in> set (digits n x) \<Longrightarrow> d < 2048"
  by (induction n arbitrary: x) auto

lemma and_low_bits: "x AND (push_bit n bigOne - bigOne) = x mod 2 ^ n"
proof -
  have "push_bit n bigOne - bigOne = mask n"
    by (simp add: bigOne_def push_bit_eq_mult mask_eq_exp_minus_1)
  then have "x AND (push_bit n bigOne - bigOne) = take_bit n x"
    by (simp only: take_bit_eq_mask)
  then show ?thesis by (simp only: take_bit_nat_def)
qed

lemma and_wordIndexMask: "x AND wordIndexMask = x mod 2048"
proof -
  have "wordIndexMask = push_bit 11 bigOne - bigOne"
    by (simp add: wordIndexMask_def bigOne_def push_bit_eq_mult)
  then show ?thesis using and_low_bits [of x 11] by simp
qed

lemma push_bit_or_add:
  assumes "c < 2 ^ n"
  shows "push_bit n a OR c = a * 2 ^ n + (c::nat)"
proof -
  have c: "take_bit n c = c" using assms by (simp add: take_bit_nat_eq_self_iff)
  have "push_bit n a + c = push_bit n a OR c"
  proof (rule disjunctive_add)
    fix k
    show "\<not> bit (push_bit n a) k \<or> \<not> bit c k"
      using bit_take_bit_iff [of n c k] c by (auto simp: bit_push_bit_iff)
  qed
  then show ?thesis by (simp add: push_bit_eq_mult)
qed

lemma drop_IndexBits: "drop_bit IndexBits x = x div 2048"
  by (simp add: IndexBits_def drop_bit_eq_div)

lemma fillWords_digits:
  "i \<le> length words \<Longrightarrow>
   fillWords wl i words big = map (List_Word wl) (digits i big) @ drop i words"
proof (induction i arbitrary: words big)
  case 0
  then show ?case by simp
next
  case (Suc i)
  then have i: "i < length words" by simp
  have "drop i (words[i := w]) = w # drop (Suc i) words" for w
    using i by (simp add: drop_update_cancel Cons_nth_drop_Suc [symmetric] upd_conv_take_nth_drop)
  then show ?case using Suc i
    by (simp add: Let_def and_wordIndexMask drop_IndexBits)
qed

subsection \<open>Word list lookups\<close>

lemma List_Index_neg_iff: "List_Index wl w < 0 \<longleftrightarrow> w \<notin> set wl"
  by (induction wl) (auto simp: Let_def)

lemma List_Index_bound: "List_Index wl w < int (length wl)"
  by (induction wl) (auto simp: Let_def)

lemma List_Index_nth: "w \<in> set wl \<Longrightarrow> wl ! nat (List_Index wl w) = w"
proof (induction wl)
  case Nil
  then show ?case by simp
next
  case (Cons x xs)
  show ?case
  proof (cases "x = w")
    case True
    then show ?thesis by simp
  next
    case False
    with Cons.prems have in_xs: "w \<in> set xs" by simp
    then have nn: "\<not> List_Index xs w < 0" by (simp add: List_Index_neg_iff)
    then have "nat (List_Index xs w + 1) = Suc (nat (List_Index xs w))" by simp
    with False nn Cons.IH [OF in_xs] show ?thesis by (simp add: Let_def)
  qed
qed

lemma List_Index_of_nth: "distinct wl \<Longrightarrow> i < length wl \<Longrightarrow> List_Index wl (wl ! i) = int i"
proof (induction wl arbitrary: i)
  case Nil
  then show ?case by simp
next
  case (Cons x xs)
  show ?case
  proof (cases i)
    case 0
    then show ?thesis by simp
  next
    case (Suc j)
    with Cons.prems have j: "j < length xs" and d: "distinct xs" and nx: "x \<notin> set xs" by simp_all
    from j nx have "x \<noteq> xs ! j" by (metis nth_mem)
    with Cons.IH [OF d j] Suc show ?thesis by (simp add: Let_def)
  qed
qed

lemma push_or_add: "d < 2048 \<Longrightarrow> push_bit IndexBits acc OR d = acc * 2048 + (d::nat)"
  using push_bit_or_add [of d 11 acc] by (simp add: IndexBits_def)

subsection \<open>The decoding loop\<close>

lemma decodeWords_indices:
  "length wl = 2048 \<Longrightarrow> \<forall>w \<in> set m. w \<in> set wl \<Longrightarrow>
   decodeWords wl m acc = Inr (fromDigits acc (map (\<lambda>w. nat (List_Index wl w)) m))"
proof (induction m arbitrary: acc)
  case Nil
  then show ?case by (simp add: fromDigits_def)
next
  case (Cons w m)
  from Cons.prems have w: "w \<in> set wl" by simp
  then have nn: "\<not> List_Index wl w < 0" by (simp add: List_Index_neg_iff)
  have lt: "List_Index wl w < 2048" using List_Index_bound [of wl w] Cons.prems(1) by simp
  then have ltn: "nat (List_Index wl w) < 2048" using nn by simp
  have "decodeWords wl (w # m) acc = decodeWords wl m (acc * 2048 + nat (List_Index wl w))"
    using nn lt by (simp add: Let_def Count_def push_or_add [OF ltn])
  also have "\<dots> = Inr (fromDigits (acc * 2048 + nat (List_Index wl w)) (map (\<lambda>w. nat (List_Index wl w)) m))"
    using Cons.IH [of "acc * 2048 + nat (List_Index wl w)"] Cons.prems by simp
  finally show ?case by (simp add: fromDigits_def)
qed

lemma fromDigits_snoc: "fromDigits acc (ds @ [d]) = fromDigits acc ds * 2048 + d"
  by (simp add: fromDigits_def)

lemma fromDigits_digits: "fromDigits 0 (digits n x) = x mod 2048 ^ n"
proof (induction n arbitrary: x)
  case 0
  then show ?case by (simp add: fromDigits_def)
next
  case (Suc n)
  have "x div 2048 mod 2048 ^ n * 2048 + x mod 2048 = x mod (2048 * 2048 ^ n)"
    by (simp add: mod_mult2_eq add.commute mult.commute)
  then show ?case by (simp add: fromDigits_snoc Suc)
qed

lemma fromDigits_lt: "\<forall>d \<in> set ds. d < 2048 \<Longrightarrow> fromDigits 0 ds < 2048 ^ length ds"
proof (induction ds rule: rev_induct)
  case Nil
  then show ?case by (simp add: fromDigits_def)
next
  case (snoc d ds)
  then have "fromDigits 0 ds < 2048 ^ length ds" and "d < 2048" by simp_all
  then show ?case by (simp add: fromDigits_snoc)
qed

subsection \<open>The checksum and the encoder\<close>

lemma leadingBits_lt: "n \<le> 256 \<Longrightarrow> leadingBits h n < 2 ^ n"
proof -
  assume n: "n \<le> 256"
  have "unat h < 2 ^ 256" using unsigned_less [of h] by simp
  also have "(2::nat) ^ 256 = 2 ^ n * 2 ^ (256 - n)"
    using n by (simp add: power_add [symmetric])
  finally show ?thesis
    unfolding leadingBits_def by (rule less_mult_imp_div_less)
qed

lemma computeChecksum_eq:
  "numBits \<le> 256 \<Longrightarrow> computeChecksum e bytes numBits = Inr (leadingBits (Sum256 e bytes) numBits)"
  by (simp add: computeChecksum_def bitsHash_def SetBytes_hashBytes leadingBits_def drop_bit_eq_div)

lemma computeChecksum_panic:
  "256 < numBits \<Longrightarrow> computeChecksum e bytes numBits = Inl (Panic InvalidNumberOfBits)"
  by (simp add: computeChecksum_def bitsHash_def)

lemma validateEntropy_None:
  "validateEntropy E = None \<longleftrightarrow> 16 \<le> length E \<and> length E \<le> 64 \<and> length E mod 4 = 0"
  by (simp add: validateEntropy_def)

lemma valid_length_cases:
  assumes "validateEntropy E = None"
  obtains k where "length E = 4 * k" "4 \<le> k" "k \<le> 16"
proof -
  from assms have a: "16 \<le> length E" "length E \<le> 64" "length E mod 4 = 0"
    by (simp_all add: validateEntropy_None)
  then have "length E = 4 * (length E div 4)" by presburger
  moreover have "4 \<le> length E div 4" "length E div 4 \<le> 16" using a by presburger+
  ultimately show ?thesis using that by blast
qed

lemma EntropyToMnemonic_valid:
  assumes "validateEntropy E = None"
  shows "EntropyToMnemonic e E =
    Inr (map (List_Word (wordList e)) (digits (3 * length E div 4) (encoded e E)))"
proof -
  from assms obtain k where k: "length E = 4 * k" "4 \<le> k" "k \<le> 16"
    by (rule valid_length_cases)
  have cb: "length E * 8 div 32 = k" using k by simp
  have n: "entropyBitsToWordCount (length E * 8) = 3 * length E div 4"
    using k by (simp add: entropyBitsToWordCount_def)
  have le: "k \<le> 256" using k by simp
  have big: "push_bit k (SetBytes E) OR leadingBits (Sum256 e E) k = encoded e E"
    using push_bit_or_add [of "leadingBits (Sum256 e E) k" k "SetBytes E"]
      leadingBits_lt [OF le, of "Sum256 e E"]
    by (simp add: encoded_def cb)
  show ?thesis
    using assms
    by (simp add: EntropyToMnemonic_def Let_def cb computeChecksum_eq [OF le] big n
        fillWords_digits)
qed

lemma pow_2048: "(2048::nat) ^ (3 * k) = 2 ^ (32 * k) * 2 ^ k"
proof -
  have "(2048::nat) = 2 ^ 11" by simp
  then have "(2048::nat) ^ (3 * k) = 2 ^ (11 * (3 * k))" by (simp only: power_mult)
  also have "\<dots> = 2 ^ (32 * k + k)" by simp
  finally show ?thesis by (simp only: power_add)
qed

lemma pow_256: "(256::nat) ^ (4 * k) = 2 ^ (32 * k)"
proof -
  have "(256::nat) = 2 ^ 8" by simp
  then have "(256::nat) ^ (4 * k) = 2 ^ (8 * (4 * k))" by (simp only: power_mult)
  then show ?thesis by simp
qed

lemma encoded_parts:
  assumes "length E = 4 * k" "k \<le> 256"
  shows "encoded e E < 2048 ^ (3 * k)"
    and "encoded e E div 2 ^ k = SetBytes E"
    and "encoded e E mod 2 ^ k = leadingBits (Sum256 e E) k"
proof -
  let ?c = "leadingBits (Sum256 e E) k"
  have cb: "length E * 8 div 32 = k" using assms by simp
  have c: "?c < 2 ^ k" using assms by (simp add: leadingBits_lt)
  have enc: "encoded e E = SetBytes E * 2 ^ k + ?c" by (simp add: encoded_def cb)
  have s: "SetBytes E < 2 ^ (32 * k)" using SetBytes_lt [of E] assms by (simp add: pow_256)
  then have "Suc (SetBytes E) \<le> 2 ^ (32 * k)" by simp
  then have "Suc (SetBytes E) * 2 ^ k \<le> 2 ^ (32 * k) * 2 ^ k" by (rule mult_le_mono1)
  moreover have "SetBytes E * 2 ^ k + ?c < Suc (SetBytes E) * 2 ^ k" using c by simp
  ultimately show "encoded e E < 2048 ^ (3 * k)" by (simp only: enc pow_2048)
  show "encoded e E div 2 ^ k = SetBytes E" using c by (simp add: enc)
  show "encoded e E mod 2 ^ k = ?c" using c by (simp add: enc)
qed

subsection \<open>The decoder\<close>

lemma validateMnemonic_None:
  "validateMnemonic wl m = None \<longleftrightarrow>
     length m \<in> {12, 15, 18, 21, 24} \<and> (\<forall>w \<in> set m. w \<in> set wl)"
  by (auto simp: validateMnemonic_def list_ex_iff)

lemma validateMnemonic_Some:
  "validateMnemonic wl m = Some err \<Longrightarrow> err = ErrInvalidMnemonic"
  by (auto simp: validateMnemonic_def split: if_splits)

lemma MnemonicToEntropy_body:
  assumes len: "length (wordList e) = 2048"
    and v: "validateMnemonic (wordList e) m = None"
    and cb: "wordCountToEntropyBits (length m) div 32 \<le> 256"
  shows "MnemonicToEntropy e m =
    (let D = mnemonicValue (wordList e) m;
         bitsChecksum = wordCountToEntropyBits (length m) div 32;
         entropy = padBytes (Bytes (D div 2 ^ bitsChecksum)) (wordCountToEntropyBits (length m) div 8)
     in if D mod 2 ^ bitsChecksum \<noteq> leadingBits (Sum256 e entropy) bitsChecksum
        then Inl (Error ErrInvalidChecksum) else Inr entropy)"
proof -
  from v have words: "\<forall>w \<in> set m. w \<in> set (wordList e)"
    by (simp add: validateMnemonic_None)
  have dec: "decodeWords (wordList e) m 0 = Inr (mnemonicValue (wordList e) m)"
    using decodeWords_indices [OF len words, of 0] by (simp add: mnemonicValue_def)
  show ?thesis
    by (simp add: MnemonicToEntropy_def v dec Let_def entropyMultiple_def and_low_bits
        drop_bit_eq_div computeChecksum_eq [OF cb])
qed

lemma valid_count_cb:
  "validateMnemonic wl m = None \<Longrightarrow> wordCountToEntropyBits (length m) div 32 \<le> 256"
  by (auto simp: validateMnemonic_None wordCountToEntropyBits_def)

lemma indices_of_words:
  assumes "distinct wl" "\<forall>d \<in> set ds. d < length wl"
  shows "map (\<lambda>w. nat (List_Index wl w)) (map (List_Word wl) ds) = ds"
  using assms by (induction ds) (simp_all add: List_Word_def List_Index_of_nth)

lemma mnemonicValue_encoded:
  assumes ok: "wordlist_ok wl" and lt: "x < 2048 ^ n"
  shows "mnemonicValue wl (map (List_Word wl) (digits n x)) = x"
proof -
  from ok have d: "distinct wl" and l: "length wl = 2048" by (simp_all add: wordlist_ok_def)
  have "\<forall>d \<in> set (digits n x). d < length wl" using digits_lt l by auto
  then have "map (\<lambda>w. nat (List_Index wl w)) (map (List_Word wl) (digits n x)) = digits n x"
    by (rule indices_of_words [OF d])
  then show ?thesis using lt
    by (simp only: mnemonicValue_def fromDigits_digits) simp
qed

lemma words_in_list:
  assumes "length wl = 2048"
  shows "\<forall>w \<in> set (map (List_Word wl) (digits n x)). w \<in> set wl"
  using assms digits_lt by (auto simp: List_Word_def)

lemma decode_encoded:
  assumes ok: "wordlist_ok (wordList e)"
    and E: "validateEntropy E = None"
    and v: "validateMnemonic (wordList e) (map (List_Word (wordList e)) (digits (3 * length E div 4) (encoded e E))) = None"
  shows "MnemonicToEntropy e (map (List_Word (wordList e)) (digits (3 * length E div 4) (encoded e E))) = Inr E"
proof -
  let ?wl = "wordList e"
  from E obtain k where k: "length E = 4 * k" "4 \<le> k" "k \<le> 16"
    by (rule valid_length_cases)
  have n: "3 * length E div 4 = 3 * k" using k by simp
  let ?m = "map (List_Word ?wl) (digits (3 * k) (encoded e E))"
  have le: "k \<le> 256" using k by simp
  from ok have l: "length ?wl = 2048" by (simp add: wordlist_ok_def)
  have lm: "length ?m = 3 * k" by (simp add: length_digits)
  have eb: "wordCountToEntropyBits (3 * k) = 32 * k" by (simp add: wordCountToEntropyBits_def)
  have D: "mnemonicValue ?wl ?m = encoded e E"
    by (rule mnemonicValue_encoded [OF ok encoded_parts(1) [OF k(1) le]])
  have pad: "padBytes (Bytes (SetBytes E)) (4 * k) = E"
    using padBytes_Bytes_SetBytes [of E] k by simp
  have v': "validateMnemonic ?wl ?m = None" using v by (simp only: n)
  have cbm: "wordCountToEntropyBits (length ?m) div 32 \<le> 256"
    using le by (simp add: length_digits eb)
  have "MnemonicToEntropy e ?m = Inr E"
    by (simp only: MnemonicToEntropy_body [OF l v' cbm] lm eb D)
      (simp add: Let_def encoded_parts(2,3) [OF k(1) le] pad)
  then show ?thesis by (simp only: n)
qed

subsection \<open>Bit sequences and 11-bit groups\<close>

lemma foldl_bits_acc:
  "foldl (\<lambda>a b. 2 * a + of_bool b) a bits = a * 2 ^ length bits + bitsToNat bits"
proof (induction bits rule: rev_induct)
  case Nil
  then show ?case by (simp add: bitsToNat_def)
next
  case (snoc b bits)
  then show ?case by (simp add: bitsToNat_def algebra_simps)
qed

lemma bitsToNat_append:
  "bitsToNat (xs @ ys) = bitsToNat xs * 2 ^ length ys + bitsToNat ys"
  using foldl_bits_acc [of "bitsToNat xs" ys] by (simp add: bitsToNat_def)

lemma bitsToNat_Cons: "bitsToNat (b # bs) = of_bool b * 2 ^ length bs + bitsToNat bs"
  using bitsToNat_append [of "[b]" bs] by (simp add: bitsToNat_def)

lemma bitsToNat_lt: "bitsToNat bits < 2 ^ length bits"
proof (induction bits rule: rev_induct)
  case Nil
  then show ?case by (simp add: bitsToNat_def)
next
  case (snoc b bits)
  then show ?case by (cases b) (simp_all add: bitsToNat_def)
qed

lemma wordBits_unat: "wordBits (w::'a::len word) = bitsOf LENGTH('a) (unat w)"
  by (simp add: wordBits_def bitsOf_def bit_unsigned_iff)

lemma length_bitsOf: "length (bitsOf n x) = n"
  by (simp add: bitsOf_def)

lemma bitsToNat_bitsOf: "bitsToNat (bitsOf n x) = x mod 2 ^ n"
proof (induction n)
  case 0
  then show ?case by (simp add: bitsOf_def bitsToNat_def)
next
  case (Suc n)
  have "bitsOf (Suc n) x = bit x n # bitsOf n x" by (simp add: bitsOf_def)
  then have "bitsToNat (bitsOf (Suc n) x) = of_bool (bit x n) * 2 ^ n + x mod 2 ^ n"
    by (simp add: bitsToNat_Cons length_bitsOf Suc)
  also have "\<dots> = x mod 2 ^ Suc n"
    using take_bit_Suc_from_most [of n x] unfolding take_bit_nat_def
    by (simp only: mult.commute)
  finally show ?case .
qed

lemma take_bitsOf: "k \<le> n \<Longrightarrow> take k (bitsOf n x) = bitsOf k (x div 2 ^ (n - k))"
proof -
  assume k: "k \<le> n"
  have "take k (rev [0..<n]) = rev [n - k..<n]" by (simp add: take_rev drop_upt)
  also have "[n - k..<n] = map (\<lambda>i. i + (n - k)) [0..<k]"
    using k map_add_upt [of "n - k" k] by simp
  finally have "take k (bitsOf n x) = map (\<lambda>i. bit x (i + (n - k))) (rev [0..<k])"
    by (simp add: bitsOf_def take_map rev_map comp_def)
  moreover have "bit (x div 2 ^ (n - k)) i = bit x (i + (n - k))" for i
    using bit_drop_bit_eq [of "n - k" x] by (simp add: drop_bit_eq_div add.commute)
  ultimately show ?thesis by (simp add: bitsOf_def)
qed

lemma checksum_bits:
  "k \<le> 256 \<Longrightarrow> bitsToNat (take k (wordBits (h::256 word))) = leadingBits h k"
  using leadingBits_lt [of k h]
  by (simp add: wordBits_unat take_bitsOf bitsToNat_bitsOf leadingBits_def)

lemma byte_bits: "bitsToNat (wordBits (b::byte)) = unat b"
proof -
  have "unat b < 2 ^ 8" using unsigned_less [of b] by simp
  then show ?thesis by (simp add: wordBits_unat bitsToNat_bitsOf)
qed

lemma length_wordBits: "length (wordBits (w::'a::len word)) = LENGTH('a)"
  by (simp add: wordBits_def)

lemma length_entropy_bits: "length (concat (map wordBits (E::byte list))) = 8 * length E"
  by (induction E) (simp_all add: length_wordBits)

lemma entropy_bits: "bitsToNat (concat (map wordBits E)) = SetBytes E"
proof (induction E rule: rev_induct)
  case Nil
  then show ?case by (simp add: bitsToNat_def SetBytes_Nil)
next
  case (snoc b E)
  then show ?case
    by (simp add: bitsToNat_append length_wordBits byte_bits SetBytes_snoc)
qed

lemma fromDigits_acc: "fromDigits acc ds = acc * 2048 ^ length ds + fromDigits 0 ds"
proof (induction ds rule: rev_induct)
  case Nil
  then show ?case by (simp add: fromDigits_def)
next
  case (snoc d ds)
  then show ?case by (simp add: fromDigits_snoc algebra_simps)
qed

lemma digits_fromDigits:
  "\<forall>d \<in> set ds. d < 2048 \<Longrightarrow> digits (length ds) (fromDigits 0 ds) = ds"
proof (induction ds rule: rev_induct)
  case Nil
  then show ?case by simp
next
  case (snoc d ds)
  then have "d < 2048" and IH: "digits (length ds) (fromDigits 0 ds) = ds" by simp_all
  then show ?case by (simp add: fromDigits_snoc)
qed

lemma length_groups: "length (groups n bits) = n"
  by (induction n arbitrary: bits) simp_all

lemma groups_small: "g \<in> set (groups n bits) \<Longrightarrow> bitsToNat g < 2048"
proof (induction n arbitrary: bits)
  case 0
  then show ?case by simp
next
  case (Suc n)
  have "bitsToNat (take 11 bits) < 2 ^ length (take 11 bits)" by (rule bitsToNat_lt)
  also have "\<dots> \<le> 2 ^ 11" by (rule power_increasing) simp_all
  finally have "bitsToNat (take 11 bits) < 2048" by simp
  with Suc show ?case by auto
qed

lemma fromDigits_groups:
  "length bits = 11 * n \<Longrightarrow> fromDigits 0 (map bitsToNat (groups n bits)) = bitsToNat bits"
proof (induction n arbitrary: bits)
  case 0
  then show ?case by (simp add: fromDigits_def bitsToNat_def)
next
  case (Suc n)
  then have l: "length (drop 11 bits) = 11 * n" and t: "length (take 11 bits) = 11" by simp_all
  have "fromDigits 0 (map bitsToNat (groups (Suc n) bits))
      = fromDigits (bitsToNat (take 11 bits)) (map bitsToNat (groups n (drop 11 bits)))"
    by (simp add: fromDigits_def)
  also have "\<dots> = bitsToNat (take 11 bits) * 2048 ^ n + bitsToNat (drop 11 bits)"
    using fromDigits_acc [of "bitsToNat (take 11 bits)" "map bitsToNat (groups n (drop 11 bits))"]
    by (simp add: length_groups Suc.IH [OF l])
  also have "(2048::nat) ^ n = 2 ^ length (drop 11 bits)"
  proof -
    have "(2048::nat) = 2 ^ 11" by simp
    then show ?thesis by (simp only: l power_mult)
  qed
  also have "bitsToNat (take 11 bits) * 2 ^ length (drop 11 bits) + bitsToNat (drop 11 bits)
       = bitsToNat (take 11 bits @ drop 11 bits)"
    by (simp only: bitsToNat_append)
  finally show ?case by simp
qed

lemma groups_digits:
  assumes "length bits = 11 * n"
  shows "map bitsToNat (groups n bits) = digits n (bitsToNat bits)"
proof -
  let ?ds = "map bitsToNat (groups n bits)"
  have "\<forall>d \<in> set ?ds. d < 2048" using groups_small by auto
  then have "digits (length ?ds) (fromDigits 0 ?ds) = ?ds" by (rule digits_fromDigits)
  then show ?thesis by (simp add: length_groups fromDigits_groups [OF assms])
qed

subsection \<open>The concrete environment\<close>

lemma sample_wordList_ok: "wordlist_ok (wordList sample_env)"
proof -
  have "inj_on (\<lambda>i. replicate (Suc i) CHR ''a'') (set [0..<2048])"
    by (rule inj_onI) (metis length_replicate nat.inject)
  then show ?thesis
    by (simp add: wordlist_ok_def sample_env_def sample_wordList_def distinct_map)
qed

lemma sample_first_word: "List_Word (wordList sample_env) 0 = ''a''"
proof -
  have "[0..<2048] ! 0 = (0::nat)" using nth_upt [of 0 0 2048] by simp
  then show ?thesis
    by (simp add: List_Word_def sample_env_def sample_wordList_def nth_map del: upt_Suc)
qed

lemma SetBytes_zeros: "SetBytes (replicate n 0) = 0"
proof (induction n)
  case 0
  then show ?case by (simp add: SetBytes_Nil)
next
  case (Suc n)
  have "replicate (Suc n) (0::byte) = replicate n 0 @ [0]"
    by (simp add: replicate_append_same)
  then show ?case using Suc by (simp only: SetBytes_snoc) simp
qed

lemma digits_zero: "digits n 0 = replicate n 0"
  by (induction n) (simp_all add: replicate_append_same)

lemma sample_encode_zeros:
  assumes "validateEntropy (replicate n 0) = None"
  shows "EntropyToMnemonic sample_env (replicate n 0) = Inr (replicate (3 * n div 4) ''a'')"
proof -
  have "Sum256 sample_env (replicate n 0) = 0"
    by (simp add: sample_env_def SetBytes_zeros)
  then have "encoded sample_env (replicate n 0) = 0"
    by (simp add: encoded_def SetBytes_zeros leadingBits_def)
  then show ?thesis
    using EntropyToMnemonic_valid [OF assms, of sample_env]
    by (simp add: digits_zero sample_first_word)
qed

lemma sample_word_at:
  "i < 2048 \<Longrightarrow> List_Word (wordList sample_env) i = replicate (Suc i) CHR ''a''"
  using nth_upt [of 0 i 2048]
  by (simp add: List_Word_def sample_env_def sample_wordList_def nth_map del: upt_Suc)

lemma sample_index_at:
  "i < 2048 \<Longrightarrow> List_Index (wordList sample_env) (replicate (Suc i) CHR ''a'') = int i"
proof -
  assume i: "i < 2048"
  from sample_wordList_ok have d: "distinct (wordList sample_env)"
    and l: "length (wordList sample_env) = 2048" by (simp_all add: wordlist_ok_def)
  from i l have "List_Index (wordList sample_env) (wordList sample_env ! i) = int i"
    by (simp add: List_Index_of_nth [OF d])
  then show ?thesis using sample_word_at [OF i] by (simp add: List_Word_def)
qed

lemma sample_word_mem:
  "i < 2048 \<Longrightarrow> replicate (Suc i) CHR ''a'' \<in> set (wordList sample_env)"
proof -
  assume i: "i < 2048"
  from sample_wordList_ok have l: "length (wordList sample_env) = 2048"
    by (simp add: wordlist_ok_def)
  then have "wordList sample_env ! i \<in> set (wordList sample_env)" using i by simp
  then show ?thesis using sample_word_at [OF i] by (simp add: List_Word_def)
qed

lemma sample_Sum256_zeros: "Sum256 sample_env (replicate n 0) = 0"
  by (simp add: sample_env_def SetBytes_zeros)

lemma fromDigits_zeros: "fromDigits 0 (replicate n 0) = 0"
proof (induction n)
  case 0
  then show ?case by (simp add: fromDigits_def)
next
  case (Suc n)
  have "replicate (Suc n) (0::nat) = replicate n 0 @ [0]" by (simp add: replicate_append_same)
  then show ?case using Suc by (simp only: fromDigits_snoc)
qed

lemma Bytes_zero: "Bytes 0 = []"
  by (simp add: Bytes.simps)

lemma sample_decode_zeros:
  "MnemonicToEntropy sample_env (replicate 12 ''a'') = Inr (replicate 16 0)"
proof -
  have a: "''a'' = replicate (Suc 0) CHR ''a''" by simp
  have idx: "List_Index (wordList sample_env) ''a'' = 0"
    using sample_index_at [of 0] by simp
  have mem: "''a'' \<in> set (wordList sample_env)" using sample_word_mem [of 0] by simp
  have v: "validateMnemonic (wordList sample_env) (replicate 12 ''a'') = None"
    using mem by (simp add: validateMnemonic_None)
  have D: "mnemonicValue (wordList sample_env) (replicate 12 ''a'') = 0"
    by (simp add: mnemonicValue_def idx fromDigits_zeros)
  from sample_wordList_ok have l: "length (wordList sample_env) = 2048"
    by (simp add: wordlist_ok_def)
  show ?thesis
    by (simp add: MnemonicToEntropy_body [OF l v valid_count_cb [OF v]] D Let_def
        wordCountToEntropyBits_def Bytes_zero padBytes_def sample_Sum256_zeros leadingBits_def)
qed

lemma sample_decode_mismatch_parts:
  "mnemonicValue (wordList sample_env) (replicate 11 ''a'' @ [''aa'']) = 1"
proof -
  have idx0: "List_Index (wordList sample_env) ''a'' = 0"
    using sample_index_at [of 0] by simp
  have idx1: "List_Index (wordList sample_env) ''aa'' = 1"
    using sample_index_at [of 1] by (simp add: numeral_2_eq_2)
  show ?thesis
    by (simp only: mnemonicValue_def map_append map_replicate list.map idx0 idx1 fromDigits_snoc)
      (simp add: fromDigits_zeros)
qed

subsection \<open>Failure paths of the decoder\<close>

lemma decodeWords_panic: "decodeWords wl m acc \<noteq> Inl (Panic InvalidNumberOfBits)"
  by (induction m arbitrary: acc) (simp_all add: Let_def)

lemma decodeWords_Error: "decodeWords wl m acc \<noteq> Inl (Error err)"
  by (induction m arbitrary: acc) (simp_all add: Let_def)

lemma MnemonicToEntropy_Inr_valid:
  "MnemonicToEntropy e m = Inr entropy \<Longrightarrow> validateMnemonic (wordList e) m = None"
  by (cases "validateMnemonic (wordList e) m") (simp_all add: MnemonicToEntropy_def)

lemma MnemonicToEntropy_invalid:
  "validateMnemonic (wordList e) m = Some err \<Longrightarrow>
   MnemonicToEntropy e m = Inl (Error ErrInvalidMnemonic)"
  using validateMnemonic_Some [of "wordList e" m err] by (simp add: MnemonicToEntropy_def)

lemma mnemonicValue_lt:
  assumes "length wl = 2048"
  shows "mnemonicValue wl m < 2048 ^ length m"
proof -
  let ?ds = "map (\<lambda>w. nat (List_Index wl w)) m"
  have "nat (List_Index wl w) < 2048" for w
    using List_Index_bound [of wl w] assms by linarith
  then have "\<forall>d \<in> set ?ds. d < 2048" by auto
  then have "fromDigits 0 ?ds < 2048 ^ length ?ds" by (rule fromDigits_lt)
  then show ?thesis by (simp add: mnemonicValue_def)
qed

lemma valid_count_cases:
  assumes "validateMnemonic wl m = None"
  obtains k where "length m = 3 * k" "4 \<le> k" "k \<le> 8"
proof -
  from assms have "length m \<in> {12, 15, 18, 21, 24}" by (simp add: validateMnemonic_None)
  then have "length m = 3 * (length m div 3) \<and> 4 \<le> length m div 3 \<and> length m div 3 \<le> 8"
    by auto
  then show ?thesis using that by blast
qed

lemma MnemonicToEntropy_failures:
  assumes "length (wordList e) = 2048" and "MnemonicToEntropy e m = Inl f"
  shows "f = Error ErrInvalidMnemonic \<or> f = Error ErrInvalidChecksum"
proof (cases "validateMnemonic (wordList e) m")
  case None
  show ?thesis
    using assms(2)
    by (simp add: MnemonicToEntropy_body [OF assms(1) None valid_count_cb [OF None]] Let_def
        split: if_splits)
next
  case (Some err)
  then show ?thesis using assms(2) MnemonicToEntropy_invalid [OF Some] by simp
qed

section \<open>The claims\<close>




text \<open>
  C2. For every valid entropy, \<^verbatim>\<open>EntropyToMnemonic\<close> returns the words that the
  bit-buffer description gives: the entropy bits followed by the leading
  \<open>bitlen / 32\<close> bits of the SHA-256 digest, cut into consecutive 11-bit groups from the
  most significant end, each group mapped through the active word list in order.
\<close>

theorem EntropyToMnemonic_bit_groups:
  assumes "validateEntropy E = None"
  shows "EntropyToMnemonic e E = Inr (spec_EntropyToMnemonic e E)"
proof -
  from assms obtain k where k: "length E = 4 * k" "4 \<le> k" "k \<le> 16"
    by (rule valid_length_cases)
  have le: "k \<le> 256" using k by simp
  have cb: "8 * length E div 32 = k" "length E * 8 div 32 = k" using k by simp_all
  let ?buffer = "concat (map wordBits E) @ take k (wordBits (Sum256 e E))"
  have len: "length ?buffer = 11 * (3 * k)"
    using k by (simp add: length_entropy_bits length_wordBits)
  have val: "bitsToNat ?buffer = encoded e E"
    using k by (simp add: bitsToNat_append entropy_bits checksum_bits [OF le] length_wordBits
        encoded_def cb)
  have "spec_EntropyToMnemonic e E
      = map (List_Word (wordList e)) (map bitsToNat (groups (3 * k) ?buffer))"
    by (simp only: spec_EntropyToMnemonic_def Let_def cb len) (simp add: comp_def)
  also have "\<dots> = map (List_Word (wordList e)) (digits (3 * k) (encoded e E))"
    by (simp only: groups_digits [OF len] val)
  finally show ?thesis
    using EntropyToMnemonic_valid [OF assms, of e] k by simp
qed

theorem EntropyToMnemonic_bit_groups_witness:
  "validateEntropy (replicate 16 0) = None
   \<and> spec_EntropyToMnemonic sample_env (replicate 16 0) = replicate 12 ''a''
   \<and> EntropyToMnemonic sample_env (replicate 16 0) = Inr (replicate 12 ''a'')"
proof -
  have v: "validateEntropy (replicate 16 0) = None" by (simp add: validateEntropy_def)
  have enc: "EntropyToMnemonic sample_env (replicate 16 0) = Inr (replicate 12 ''a'')"
    using sample_encode_zeros [OF v] by simp
  with EntropyToMnemonic_bit_groups [OF v, of sample_env] v show ?thesis by simp
qed

text \<open>
  C3. \<^verbatim>\<open>MnemonicToSeed\<close> first decodes the mnemonic and returns whatever failure the
  decoding returns, which under a word list of 2048 words is \<^verbatim>\<open>ErrInvalidMnemonic\<close> or
  \<^verbatim>\<open>ErrInvalidChecksum\<close>; when the decoding succeeds it returns exactly the
  PBKDF2-HMAC-SHA512 stretch, with 2048 iterations and 64 bytes requested, of the bytes of
  the mnemonic sentence as password and the bytes of \<^verbatim>\<open>"mnemonic"\<close> followed by the
  NFKD-normalized passphrase as salt; the seed has 64 bytes when \<^verbatim>\<open>pbkdf2.Key\<close> returns
  as many bytes as it is asked for.
\<close>

theorem MnemonicToSeed_stretch:
  "(\<forall>err. MnemonicToEntropy e m = Inl err \<longrightarrow> MnemonicToSeed e m p = Inl err)
   \<and> (\<forall>entropy. MnemonicToEntropy e m = Inr entropy \<longrightarrow>
        MnemonicToSeed e m p =
          Inr (pbkdf2_Key e (stringBytes (Mnemonic_String m))
                 (stringBytes (''mnemonic'' @ NFKD e p)) 2048 64))
   \<and> (length (wordList e) = 2048 \<longrightarrow>
        (\<forall>f. MnemonicToSeed e m p = Inl f \<longrightarrow>
           f = Error ErrInvalidMnemonic \<or> f = Error ErrInvalidChecksum))
   \<and> ((\<forall>password salt. length (pbkdf2_Key e password salt 2048 64) = 64) \<longrightarrow>
        (\<forall>seed. MnemonicToSeed e m p = Inr seed \<longrightarrow> length seed = 64))"
proof (intro conjI allI impI)
  fix err assume "MnemonicToEntropy e m = Inl err"
  then show "MnemonicToSeed e m p = Inl err" by (simp add: MnemonicToSeed_def)
next
  fix entropy assume "MnemonicToEntropy e m = Inr entropy"
  then show "MnemonicToSeed e m p =
      Inr (pbkdf2_Key e (stringBytes (Mnemonic_String m))
             (stringBytes (''mnemonic'' @ NFKD e p)) 2048 64)"
    by (simp add: MnemonicToSeed_def SeedSize_def Let_def)
next
  fix f assume l: "length (wordList e) = 2048" and s: "MnemonicToSeed e m p = Inl f"
  from s have "MnemonicToEntropy e m = Inl f"
    by (cases "MnemonicToEntropy e m") (simp_all add: MnemonicToSeed_def Let_def)
  then show "f = Error ErrInvalidMnemonic \<or> f = Error ErrInvalidChecksum"
    by (rule MnemonicToEntropy_failures [OF l])
next
  fix seed
  assume c: "\<forall>password salt. length (pbkdf2_Key e password salt 2048 64) = 64"
    and s: "MnemonicToSeed e m p = Inr seed"
  from s have "seed = pbkdf2_Key e (stringBytes (Mnemonic_String m))
             (stringBytes (''mnemonic'' @ NFKD e p)) 2048 64"
    by (cases "MnemonicToEntropy e m") (simp_all add: MnemonicToSeed_def SeedSize_def Let_def)
  with c show "length seed = 64" by simp
qed

theorem MnemonicToSeed_stretch_witness:
  "MnemonicToEntropy sample_env (replicate 12 ''a'') = Inr (replicate 16 0)
   \<and> MnemonicToSeed sample_env (replicate 12 ''a'') ''pw'' =
       Inr (pbkdf2_Key sample_env (stringBytes (Mnemonic_String (replicate 12 ''a'')))
              (stringBytes (''mnemonic'' @ NFKD sample_env ''pw'')) 2048 64)
   \<and> (\<forall>password salt. length (pbkdf2_Key sample_env password salt 2048 64) = 64)
   \<and> length (pbkdf2_Key sample_env (stringBytes (Mnemonic_String (replicate 12 ''a'')))
              (stringBytes (''mnemonic'' @ NFKD sample_env ''pw'')) 2048 64) = 64
   \<and> length (wordList sample_env) = 2048
   \<and> MnemonicToEntropy sample_env [] = Inl (Error ErrInvalidMnemonic)
   \<and> MnemonicToSeed sample_env [] ''pw'' = Inl (Error ErrInvalidMnemonic)"
proof -
  have bad: "MnemonicToEntropy sample_env [] = Inl (Error ErrInvalidMnemonic)"
    by (simp add: MnemonicToEntropy_def validateMnemonic_def)
  have c: "\<forall>password salt. length (pbkdf2_Key sample_env password salt 2048 64) = 64"
    by (simp add: sample_env_def)
  from sample_wordList_ok have l: "length (wordList sample_env) = 2048"
    by (simp add: wordlist_ok_def)
  show ?thesis
    using MnemonicToSeed_stretch [of sample_env "replicate 12 ''a''" "''pw''"]
      MnemonicToSeed_stretch [of sample_env "[]" "''pw''"]
      sample_decode_zeros bad c l
    by blast
qed

text \<open>
  C5. For a mnemonic with a valid word count whose words are all in the active word
  list, \<^verbatim>\<open>MnemonicToEntropy\<close> takes the trailing \<open>entropyBits / 32\<close> bits of the
  concatenated word indices as checksum and the bits before them, padded to
  \<open>entropyBits / 8\<close> bytes, as entropy. It fails with \<^verbatim>\<open>ErrInvalidChecksum\<close> exactly
  when the leading bits of the digest of that entropy differ from the trailing bits; then
  no entropy is returned, and otherwise the entropy is returned.
\<close>

theorem checksum_mismatch_iff:
  assumes "wordlist_ok (wordList e)"
    and "length m \<in> {12, 15, 18, 21, 24}"
    and "set m \<subseteq> set (wordList e)"
  shows
    "let bitsEntropy = wordCountToEntropyBits (length m);
         bitsChecksum = bitsEntropy div 32;
         buffer = mnemonicValue (wordList e) m;
         trailing = buffer mod 2 ^ bitsChecksum;
         entropy = padBytes (Bytes (buffer div 2 ^ bitsChecksum)) (bitsEntropy div 8);
         recomputed = leadingBits (Sum256 e entropy) bitsChecksum
     in ((MnemonicToEntropy e m = Inl (Error ErrInvalidChecksum)) = (recomputed \<noteq> trailing))
        \<and> (recomputed \<noteq> trailing \<longrightarrow> (\<forall>bytes. MnemonicToEntropy e m \<noteq> Inr bytes))
        \<and> (recomputed = trailing \<longrightarrow> MnemonicToEntropy e m = Inr entropy)"
proof -
  from assms(1) have l: "length (wordList e) = 2048" by (simp add: wordlist_ok_def)
  from assms(2,3) have v: "validateMnemonic (wordList e) m = None"
    by (auto simp: validateMnemonic_None)
  show ?thesis
    by (simp add: MnemonicToEntropy_body [OF l v valid_count_cb [OF v]] Let_def)
qed

theorem checksum_mismatch_iff_witness:
  "wordlist_ok (wordList sample_env)
   \<and> MnemonicToEntropy sample_env (replicate 11 ''a'' @ [''aa'']) = Inl (Error ErrInvalidChecksum)
   \<and> MnemonicToEntropy sample_env (replicate 12 ''a'') = Inr (replicate 16 0)"
proof -
  let ?m = "replicate 11 ''a'' @ [''aa'']"
  have len: "length ?m \<in> {12, 15, 18, 21, 24}" by simp
  have sub: "set ?m \<subseteq> set (wordList sample_env)"
    using sample_word_mem [of 0] sample_word_mem [of 1] by (simp add: numeral_2_eq_2)
  have eb: "wordCountToEntropyBits (length ?m) = 128" by (simp add: wordCountToEntropyBits_def)
  have "MnemonicToEntropy sample_env ?m = Inl (Error ErrInvalidChecksum)"
    using checksum_mismatch_iff [OF sample_wordList_ok len sub]
    by (simp only: Let_def eb sample_decode_mismatch_parts)
      (simp add: Bytes_zero padBytes_def sample_Sum256_zeros leadingBits_def)
  with sample_wordList_ok sample_decode_zeros show ?thesis by simp
qed

text \<open>
  C6. A mnemonic whose word count is not one of 12, 15, 18, 21, 24, or that has a word
  absent from the active word list, makes \<^verbatim>\<open>MnemonicToEntropy\<close> return the error
  \<^verbatim>\<open>ErrInvalidMnemonic\<close>: an error value, not a panic.
\<close>

theorem invalid_mnemonic_rejected:
  assumes "length m \<notin> {12, 15, 18, 21, 24} \<or> (\<exists>w \<in> set m. w \<notin> set (wordList e))"
  shows "MnemonicToEntropy e m = Inl (Error ErrInvalidMnemonic)"
proof -
  from assms have "validateMnemonic (wordList e) m \<noteq> None"
    by (auto simp: validateMnemonic_None)
  then obtain err where "validateMnemonic (wordList e) m = Some err" by blast
  then show ?thesis by (rule MnemonicToEntropy_invalid)
qed

theorem invalid_mnemonic_rejected_witness:
  "length (replicate 13 ''a'') \<notin> {12, 15, 18, 21, 24::nat}
   \<and> MnemonicToEntropy sample_env (replicate 13 ''a'') = Inl (Error ErrInvalidMnemonic)
   \<and> ''b'' \<notin> set (wordList sample_env)
   \<and> MnemonicToEntropy sample_env (replicate 12 ''b'') = Inl (Error ErrInvalidMnemonic)"
proof -
  have "\<forall>w \<in> set (wordList sample_env). hd w = CHR ''a''"
    by (simp add: sample_env_def sample_wordList_def del: upt_Suc)
  then have b: "''b'' \<notin> set (wordList sample_env)" by fastforce
  have 1: "MnemonicToEntropy sample_env (replicate 13 ''a'') = Inl (Error ErrInvalidMnemonic)"
    by (rule invalid_mnemonic_rejected) simp
  have 2: "MnemonicToEntropy sample_env (replicate 12 ''b'') = Inl (Error ErrInvalidMnemonic)"
    by (rule invalid_mnemonic_rejected) (simp add: b)
  from b 1 2 show ?thesis by simp
qed

text \<open>
  C7. \<^verbatim>\<open>EntropyToMnemonic\<close> fails with \<^verbatim>\<open>ErrInvalidEntropySize\<close> exactly when the
  entropy is not of 16 to 64 bytes with a length that is a multiple of 4.
\<close>

theorem invalid_entropy_size_iff:
  "(EntropyToMnemonic e E = Inl (Error ErrInvalidEntropySize))
     = (\<not> (16 \<le> length E \<and> length E \<le> 64 \<and> length E mod 4 = 0))"
proof (cases "validateEntropy E")
  case None
  then show ?thesis
    using EntropyToMnemonic_valid [OF None, of e] by (simp add: validateEntropy_None)
next
  case (Some err)
  then show ?thesis
    by (auto simp: EntropyToMnemonic_def validateEntropy_def split: if_splits)
qed

theorem invalid_entropy_size_iff_witness:
  "EntropyToMnemonic sample_env (replicate 15 0) = Inl (Error ErrInvalidEntropySize)
   \<and> EntropyToMnemonic sample_env (replicate 68 0) = Inl (Error ErrInvalidEntropySize)
   \<and> EntropyToMnemonic sample_env (replicate 64 0) \<noteq> Inl (Error ErrInvalidEntropySize)"
  using invalid_entropy_size_iff [of sample_env "replicate 15 0"]
    invalid_entropy_size_iff [of sample_env "replicate 68 0"]
    invalid_entropy_size_iff [of sample_env "replicate 64 0"]
  by simp

text \<open>
  C8. When \<^verbatim>\<open>MnemonicToEntropy\<close> succeeds on a mnemonic, \<^verbatim>\<open>MnemonicToSeed\<close> succeeds
  on it for every passphrase, and its seed has 64 bytes, given that \<^verbatim>\<open>pbkdf2.Key\<close>
  returns as many bytes as it is asked for.
\<close>

theorem MnemonicToSeed_after_decode:
  assumes "\<forall>password salt. length (pbkdf2_Key e password salt 2048 64) = 64"
    and "MnemonicToEntropy e m = Inr entropy"
  shows "\<exists>seed. MnemonicToSeed e m p = Inr seed \<and> length seed = 64 \<and> seed \<noteq> []"
proof -
  let ?seed = "pbkdf2_Key e (stringBytes (Mnemonic_String m))
                 (stringBytes (''mnemonic'' @ NFKD e p)) 2048 64"
  have "MnemonicToSeed e m p = Inr ?seed"
    using assms(2) by (simp add: MnemonicToSeed_def SeedSize_def Let_def)
  moreover have "length ?seed = 64" using assms(1) by blast
  moreover from this have "?seed \<noteq> []" by auto
  ultimately show ?thesis by blast
qed

theorem MnemonicToSeed_after_decode_witness:
  "(\<forall>password salt. length (pbkdf2_Key sample_env password salt 2048 64) = 64)
   \<and> MnemonicToEntropy sample_env (replicate 12 ''a'') = Inr (replicate 16 0)
   \<and> (\<exists>seed. MnemonicToSeed sample_env (replicate 12 ''a'') ''pw'' = Inr seed
         \<and> length seed = 64 \<and> seed \<noteq> [])"
proof -
  have c: "\<forall>password salt. length (pbkdf2_Key sample_env password salt 2048 64) = 64"
    by (simp add: sample_env_def)
  from MnemonicToSeed_after_decode [OF c sample_decode_zeros, of "''pw''"] c sample_decode_zeros
  show ?thesis by blast
qed

text \<open>
  C9. The entropy that \<^verbatim>\<open>MnemonicToEntropy\<close> returns has exactly
  \<open>4 \<times> wordCount / 3\<close> bytes, whatever its value: the witness decodes to the number
  zero, for which \<^verbatim>\<open>big.Int.Bytes\<close> is empty, and still returns 16 bytes.
\<close>

theorem entropy_length_from_word_count:
  assumes "wordlist_ok (wordList e)" and "MnemonicToEntropy e m = Inr entropy"
  shows "length entropy = 4 * length m div 3"
proof -
  from assms(1) have l: "length (wordList e) = 2048" by (simp add: wordlist_ok_def)
  from assms(2) have v: "validateMnemonic (wordList e) m = None"
    by (rule MnemonicToEntropy_Inr_valid)
  then obtain k where k: "length m = 3 * k" "4 \<le> k" "k \<le> 8" by (rule valid_count_cases)
  let ?D = "mnemonicValue (wordList e) m"
  have eb: "wordCountToEntropyBits (length m) = 32 * k"
    by (simp add: wordCountToEntropyBits_def k)
  have ent: "entropy = padBytes (Bytes (?D div 2 ^ k)) (4 * k)"
    using assms(2)
    by (simp add: MnemonicToEntropy_body [OF l v valid_count_cb [OF v]] Let_def eb
        split: if_splits)
  have "?D < 2 ^ (32 * k) * 2 ^ k"
    using mnemonicValue_lt [OF l, of m] by (simp only: k pow_2048)
  then have "?D div 2 ^ k < 2 ^ (32 * k)" by (rule less_mult_imp_div_less)
  then have "?D div 2 ^ k < 256 ^ (4 * k)" by (simp only: pow_256)
  then have "length (Bytes (?D div 2 ^ k)) \<le> 4 * k" by (rule length_Bytes_le)
  then have "length entropy = 4 * k" by (simp only: ent length_padBytes)
  then show ?thesis by (simp add: k)
qed

theorem entropy_length_from_word_count_witness:
  "wordlist_ok (wordList sample_env)
   \<and> MnemonicToEntropy sample_env (replicate 12 ''a'') = Inr (replicate 16 0)
   \<and> Bytes (mnemonicValue (wordList sample_env) (replicate 12 ''a'') div 2 ^ 4) = []
   \<and> length (replicate 16 (0::byte)) = 4 * length (replicate 12 ''a'') div 3"
proof -
  have idx: "List_Index (wordList sample_env) ''a'' = 0"
    using sample_index_at [of 0] by simp
  have "mnemonicValue (wordList sample_env) (replicate 12 ''a'') = 0"
    by (simp add: mnemonicValue_def idx fromDigits_zeros)
  then have "Bytes (mnemonicValue (wordList sample_env) (replicate 12 ''a'') div 2 ^ 4) = []"
    by (simp add: Bytes_zero)
  with entropy_length_from_word_count [OF sample_wordList_ok sample_decode_zeros]
    sample_wordList_ok sample_decode_zeros
  show ?thesis by simp
qed

text \<open>
  C10. The panic of \<^verbatim>\<open>computeChecksum\<close> for more than 256 bits is unreachable:
  validated entropy asks for at most 16 checksum bits, a validated mnemonic for at most
  8, in both cases \<^verbatim>\<open>computeChecksum\<close> returns a value, and neither
  \<^verbatim>\<open>EntropyToMnemonic\<close> nor \<^verbatim>\<open>MnemonicToEntropy\<close> ends in that panic.
\<close>

theorem computeChecksum_never_panics:
  "(validateEntropy E = None \<longrightarrow>
      length E * 8 div 32 \<le> 16 \<and> (\<exists>c. computeChecksum e E (length E * 8 div 32) = Inr c))
   \<and> (validateMnemonic (wordList e) m = None \<longrightarrow>
      wordCountToEntropyBits (length m) div entropyMultiple \<le> 8
      \<and> (\<forall>bytes. \<exists>c. computeChecksum e bytes
                      (wordCountToEntropyBits (length m) div entropyMultiple) = Inr c))
   \<and> EntropyToMnemonic e E \<noteq> Inl (Panic InvalidNumberOfBits)
   \<and> MnemonicToEntropy e m \<noteq> Inl (Panic InvalidNumberOfBits)"
proof -
  have 1: "length E * 8 div 32 \<le> 16 \<and> (\<exists>c. computeChecksum e E (length E * 8 div 32) = Inr c)"
    if "validateEntropy E = None"
  proof -
    from that have "length E \<le> 64" by (simp add: validateEntropy_None)
    then have "length E * 8 div 32 \<le> 16" by linarith
    then show ?thesis by (simp add: computeChecksum_eq)
  qed
  have 2: "\<exists>c. computeChecksum e bytes (wordCountToEntropyBits (length m) div entropyMultiple) = Inr c"
    if "validateMnemonic (wordList e) m = None" for bytes
    using valid_count_cb [OF that] by (simp add: entropyMultiple_def computeChecksum_eq)
  have 5: "wordCountToEntropyBits (length m) div entropyMultiple \<le> 8"
    if "validateMnemonic (wordList e) m = None"
    using that by (auto simp: validateMnemonic_None wordCountToEntropyBits_def entropyMultiple_def)
  have 3: "EntropyToMnemonic e E \<noteq> Inl (Panic InvalidNumberOfBits)"
  proof (cases "validateEntropy E")
    case None
    then show ?thesis using EntropyToMnemonic_valid [OF None, of e] by simp
  next
    case (Some err)
    then show ?thesis by (simp add: EntropyToMnemonic_def)
  qed
  have 4: "MnemonicToEntropy e m \<noteq> Inl (Panic InvalidNumberOfBits)"
  proof (cases "validateMnemonic (wordList e) m")
    case None
    show ?thesis
    proof (cases "decodeWords (wordList e) m 0")
      case (Inl f)
      then have "f \<noteq> Panic InvalidNumberOfBits" using decodeWords_panic [of "wordList e" m 0] by auto
      then show ?thesis using None Inl by (simp add: MnemonicToEntropy_def Let_def)
    next
      case (Inr decoder)
      then show ?thesis using None valid_count_cb [OF None]
        by (simp add: MnemonicToEntropy_def Let_def entropyMultiple_def computeChecksum_eq)
    qed
  next
    case (Some err)
    then show ?thesis by (simp add: MnemonicToEntropy_def)
  qed
  from 1 2 3 4 5 show ?thesis by blast
qed

theorem computeChecksum_never_panics_witness:
  "validateEntropy (replicate 64 0) = None
   \<and> (\<exists>c. computeChecksum sample_env (replicate 64 0) 16 = Inr c)
   \<and> validateMnemonic (wordList sample_env) (replicate 12 ''a'') = None
   \<and> (\<exists>c. computeChecksum sample_env (replicate 16 0) 4 = Inr c)
   \<and> EntropyToMnemonic sample_env (replicate 64 0) \<noteq> Inl (Panic InvalidNumberOfBits)
   \<and> MnemonicToEntropy sample_env (replicate 12 ''a'') \<noteq> Inl (Panic InvalidNumberOfBits)"
proof -
  have v: "validateEntropy (replicate 64 0) = None" by (simp add: validateEntropy_def)
  have vm: "validateMnemonic (wordList sample_env) (replicate 12 ''a'') = None"
    using sample_decode_zeros by (rule MnemonicToEntropy_Inr_valid)
  have cb: "wordCountToEntropyBits (length (replicate 12 ''a'')) div entropyMultiple = 4"
    by (simp add: wordCountToEntropyBits_def entropyMultiple_def)
  from computeChecksum_never_panics [of "replicate 64 0" sample_env "replicate 12 ''a''"] v vm
  have "(\<exists>c. computeChecksum sample_env (replicate 64 0) (length (replicate 64 (0::byte)) * 8 div 32) = Inr c)"
    and "\<exists>c. computeChecksum sample_env (replicate 16 0)
                (wordCountToEntropyBits (length (replicate 12 ''a'')) div entropyMultiple) = Inr c"
    and "EntropyToMnemonic sample_env (replicate 64 0) \<noteq> Inl (Panic InvalidNumberOfBits)"
    and "MnemonicToEntropy sample_env (replicate 12 ''a'') \<noteq> Inl (Panic InvalidNumberOfBits)"
    by blast+
  then show ?thesis using v vm by (simp only: cb) simp
qed

section \<open>Further properties\<close>

text \<open>
  For every entropy of 16 to 64 bytes whose length is a multiple of 4,
  \<^verbatim>\<open>EntropyToMnemonic\<close> returns \<open>3 \<times> len / 4\<close> words of the active word list, and
  \<^verbatim>\<open>MnemonicToEntropy\<close> returns the entropy from them whenever \<^verbatim>\<open>validateMnemonic\<close>
  lets them through: the mnemonic validation is the only step that can break the round
  trip.
\<close>

theorem roundtrip_modulo_validation:
  assumes "wordlist_ok (wordList e)"
    and "16 \<le> length E" "length E \<le> 64" "length E mod 4 = 0"
  shows "\<exists>m. EntropyToMnemonic e E = Inr m
           \<and> length m = 3 * length E div 4
           \<and> set m \<subseteq> set (wordList e)
           \<and> (validateMnemonic (wordList e) m = None \<longrightarrow> MnemonicToEntropy e m = Inr E)"
proof -
  let ?m = "map (List_Word (wordList e)) (digits (3 * length E div 4) (encoded e E))"
  from assms have E: "validateEntropy E = None" by (simp add: validateEntropy_None)
  from assms have l: "length (wordList e) = 2048" by (simp add: wordlist_ok_def)
  have a: "EntropyToMnemonic e E = Inr ?m" by (rule EntropyToMnemonic_valid [OF E])
  have b: "length ?m = 3 * length E div 4" by (simp add: length_digits)
  have c: "set ?m \<subseteq> set (wordList e)" using words_in_list [OF l] by blast
  have d: "validateMnemonic (wordList e) ?m = None \<longrightarrow> MnemonicToEntropy e ?m = Inr E"
    using decode_encoded [OF assms(1) E] by blast
  show ?thesis by (rule exI [of _ ?m]) (intro conjI a b c d)
qed

theorem roundtrip_modulo_validation_witness:
  "wordlist_ok (wordList sample_env)
   \<and> EntropyToMnemonic sample_env (replicate 64 0) = Inr (replicate 48 ''a'')
   \<and> length (replicate 48 ''a'') = 3 * length (replicate 64 (0::byte)) div 4
   \<and> set (replicate 48 ''a'') \<subseteq> set (wordList sample_env)"
proof -
  have v: "validateEntropy (replicate 64 0) = None" by (simp add: validateEntropy_def)
  have enc: "EntropyToMnemonic sample_env (replicate 64 0) = Inr (replicate 48 ''a'')"
    using sample_encode_zeros [OF v] by simp
  from roundtrip_modulo_validation [OF sample_wordList_ok, of "replicate 64 0"]
  obtain m where "EntropyToMnemonic sample_env (replicate 64 0) = Inr m"
    and "set m \<subseteq> set (wordList sample_env)" by auto
  with enc have "set (replicate 48 ''a'') \<subseteq> set (wordList sample_env)" by simp
  with enc sample_wordList_ok show ?thesis by simp
qed

text \<open>
  Under a word list of 2048 words \<^verbatim>\<open>MnemonicToEntropy\<close> never panics: the
  validation has looked every word up before the decoding loop does.
\<close>

theorem MnemonicToEntropy_no_panic:
  assumes "length (wordList e) = 2048"
  shows "MnemonicToEntropy e m \<noteq> Inl (Panic p)"
proof (cases "validateMnemonic (wordList e) m")
  case None
  show ?thesis
    by (simp add: MnemonicToEntropy_body [OF assms None valid_count_cb [OF None]] Let_def)
next
  case (Some err)
  then show ?thesis by (simp add: MnemonicToEntropy_def)
qed

theorem MnemonicToEntropy_no_panic_witness:
  "length (wordList sample_env) = 2048
   \<and> MnemonicToEntropy sample_env (replicate 12 ''b'') \<noteq> Inl (Panic InvalidWordIndex)"
proof -
  from sample_wordList_ok have l: "length (wordList sample_env) = 2048"
    by (simp add: wordlist_ok_def)
  with MnemonicToEntropy_no_panic [OF l, of "replicate 12 ''b''" InvalidWordIndex]
  show ?thesis by simp
qed

end
